theory Spec2Isabelle
  imports Complex_Main
begin

section \<open>DSP primitives: circular buffer and delay line\<close>

text \<open>
  Numbers are real numbers: the finite values of JavaScript's doubles, with exact
  arithmetic. The source keeps samples in a \<^verbatim>\<open>Float32Array\<close>, whose elements are
  single-precision values: a store rounds the number, and may turn it into an infinity.

  Indices are JavaScript numbers. The only non-integer value an index can take here is
  \<^verbatim>\<open>NaN\<close>, the result of \<^verbatim>\<open>% 0\<close>; it is the value \<open>None\<close> of the model. A read
  outside the array yields \<^verbatim>\<open>undefined\<close>, again \<open>None\<close>; a store outside the array is
  ignored.
\<close>

text \<open>
  \<^verbatim>\<open>Math.fround\<close>, the conversion of a number to single precision that every store
  into a \<^verbatim>\<open>Float32Array\<close> performs: round to the nearest value with a 24-bit
  significand, ties to the even significand; exponents below \<open>-126\<close> share the quantum
  \<open>2 powi (-149)\<close> of the subnormal numbers; a magnitude of at least
  \<open>2 ^ 128 - 2 ^ 103\<close> becomes an infinity.
\<close>

datatype f32 = F32 real | F32_Infinity | F32_NegInfinity

definition round_half_even :: "real \<Rightarrow> int" where
  "round_half_even r =
     (let f = \<lfloor>r\<rfloor>; d = r - of_int f
      in if d < 1 / 2 then f
         else if 1 / 2 < d then f + 1
         else if even f then f else f + 1)"

text \<open>
  The binary exponent \<open>e\<close> of a positive number \<open>a\<close>, clamped at \<open>-126\<close>:
  \<open>2 powi e \<le> a < 2 powi (e + 1)\<close>, found by halving or doubling \<open>a\<close>.
\<close>

function f32_exp_up :: "real \<Rightarrow> int \<Rightarrow> int" where
  "f32_exp_up a e = (if 2 \<le> a then f32_exp_up (a / 2) (e + 1) else e)"
  by pat_completeness auto
termination
proof (relation "measure (\<lambda>(a, e). nat \<lfloor>a\<rfloor>)")
  show "wf (measure (\<lambda>(a, e). nat \<lfloor>a\<rfloor>))" by simp
next
  fix a :: real and e :: int
  assume a: "2 \<le> a"
  have "a / 2 < of_int \<lfloor>a\<rfloor>"
  proof -
    have "a < of_int \<lfloor>a\<rfloor> + 1" by linarith
    moreover have "2 \<le> \<lfloor>a\<rfloor>" using a by linarith
    then have "(2::real) \<le> of_int \<lfloor>a\<rfloor>" by linarith
    ultimately show ?thesis by linarith
  qed
  then have "\<lfloor>a / 2\<rfloor> < \<lfloor>a\<rfloor>" by (simp add: floor_less_iff)
  moreover have "0 < \<lfloor>a\<rfloor>" using a by linarith
  ultimately show "((a / 2, e + 1), (a, e)) \<in> measure (\<lambda>(a, e). nat \<lfloor>a\<rfloor>)"
    by simp
qed

function f32_exp_down :: "real \<Rightarrow> int \<Rightarrow> int" where
  "f32_exp_down a e = (if a < 1 \<and> - 126 < e then f32_exp_down (a * 2) (e - 1) else e)"
  by pat_completeness auto
termination
  by (relation "measure (\<lambda>(a, e). nat (e + 126))") auto

declare f32_exp_up.simps [simp del] f32_exp_down.simps [simp del]

definition f32_exponent :: "real \<Rightarrow> int" where
  "f32_exponent a = (if 2 \<le> a then f32_exp_up a 0 else f32_exp_down a 0)"

definition f32_overflow :: real where
  "f32_overflow = 2 ^ 128 - 2 ^ 103"

definition fround :: "real \<Rightarrow> f32" where
  "fround x =
     (if x = 0 then F32 0
      else if f32_overflow \<le> \<bar>x\<bar> then (if 0 < x then F32_Infinity else F32_NegInfinity)
      else
        let e = f32_exponent \<bar>x\<bar>;
            q = 2 powi (e - 23);
            m = round_half_even (\<bar>x\<bar> / q)
        in F32 (sgn x * of_int m * q))"

text \<open>A number that a \<^verbatim>\<open>Float32Array\<close> holds unchanged.\<close>

definition is_float32 :: "real \<Rightarrow> bool" where
  "is_float32 x \<longleftrightarrow> fround x = F32 x"

record CircularBuffer =
  cb_buffer :: "f32 list"
  cb_size :: nat
  cb_writeIndex :: "nat option"

text \<open>\<^verbatim>\<open>a % n\<close> on integers: the sign follows the dividend, \<^verbatim>\<open>NaN\<close> for \<open>n = 0\<close>.\<close>

definition js_rem :: "int \<Rightarrow> nat \<Rightarrow> int option" where
  "js_rem a n =
     (if n = 0 then None
      else if a < 0 then Some (- ((- a) mod int n))
      else Some (a mod int n))"

text \<open>Reading \<^verbatim>\<open>buffer[i]\<close> of a typed array.\<close>

definition typed_get :: "'a list \<Rightarrow> int option \<Rightarrow> 'a option" where
  "typed_get xs i =
     (case i of
        None \<Rightarrow> None
      | Some j \<Rightarrow> if 0 \<le> j \<and> nat j < length xs then Some (xs ! nat j) else None)"

definition CircularBuffer_new :: "nat \<Rightarrow> CircularBuffer" where
  "CircularBuffer_new n =
     \<lparr>cb_buffer = replicate n (F32 0), cb_size = n, cb_writeIndex = Some 0\<rparr>"

definition CircularBuffer_write :: "real \<Rightarrow> CircularBuffer \<Rightarrow> CircularBuffer" where
  "CircularBuffer_write sample cb =
     (case cb_writeIndex cb of
        None \<Rightarrow> cb
      | Some w \<Rightarrow>
          cb\<lparr>cb_buffer := (cb_buffer cb)[w := fround sample],
             cb_writeIndex := map_option nat (js_rem (int w + 1) (cb_size cb))\<rparr>)"

definition CircularBuffer_read :: "int \<Rightarrow> CircularBuffer \<Rightarrow> f32 option" where
  "CircularBuffer_read delay cb =
     (case cb_writeIndex cb of
        None \<Rightarrow> None
      | Some w \<Rightarrow>
          typed_get (cb_buffer cb) (js_rem (int w - delay + int (cb_size cb)) (cb_size cb)))"

record DelayLine =
  dl_buffer :: CircularBuffer
  dl_delayInSamples :: nat

definition DelayLine_new :: "nat \<Rightarrow> DelayLine" where
  "DelayLine_new maxDelayInSamples =
     \<lparr>dl_buffer = CircularBuffer_new maxDelayInSamples, dl_delayInSamples = 0\<rparr>"

text \<open>\<^verbatim>\<open>process(input, delayTime)\<close>: the returned sample and the delay line afterwards.\<close>

definition DelayLine_process :: "real \<Rightarrow> real \<Rightarrow> DelayLine \<Rightarrow> f32 option \<times> DelayLine" where
  "DelayLine_process input delayTime dl =
     (let b = CircularBuffer_write input (dl_buffer dl)
      in (CircularBuffer_read \<lfloor>delayTime\<rfloor> b, dl\<lparr>dl_buffer := b\<rparr>))"

text \<open>A sequence of \<^verbatim>\<open>write\<close> calls, first element first.\<close>

definition CircularBuffer_writes :: "real list \<Rightarrow> CircularBuffer \<Rightarrow> CircularBuffer" where
  "CircularBuffer_writes xs cb = fold CircularBuffer_write xs cb"

text \<open>A sequence of \<^verbatim>\<open>process\<close> calls, each with its own delay time; the outputs in order.\<close>

fun DelayLine_run :: "(real \<times> real) list \<Rightarrow> DelayLine \<Rightarrow> f32 option list \<times> DelayLine" where
  "DelayLine_run [] dl = ([], dl)"
| "DelayLine_run ((x, d) # rest) dl =
     (let (y, dl') = DelayLine_process x d dl;
          (ys, dl'') = DelayLine_run rest dl'
      in (y # ys, dl''))"

text \<open>
  The specification's fractional delay, in its own words: the linear interpolation
  between the two buffered samples adjacent to offset \<open>d\<close>, at \<open>\<lfloor>d\<rfloor>\<close> and
  \<open>\<lfloor>d\<rfloor> + 1\<close>, weighted by the fractional part of \<open>d\<close>. It is stated over the
  buffer's own \<^verbatim>\<open>read\<close>, to be compared with what \<^verbatim>\<open>process\<close> returns, and
  for two finite samples.
\<close>

definition spec_interpolated_read :: "real \<Rightarrow> CircularBuffer \<Rightarrow> f32 option" where
  "spec_interpolated_read d cb =
     (case (CircularBuffer_read \<lfloor>d\<rfloor> cb, CircularBuffer_read (\<lfloor>d\<rfloor> + 1) cb) of
        (Some (F32 a), Some (F32 b)) \<Rightarrow> Some (F32 ((1 - frac d) * a + frac d * b))
      | _ \<Rightarrow> None)"

text \<open>
  The invariant of a buffer of capacity \<open>n\<close> that has seen the writes \<open>xs\<close>: each of
  the last \<open>n\<close> samples is in its slot, as rounded by the store.
\<close>

definition cb_inv :: "nat \<Rightarrow> real list \<Rightarrow> CircularBuffer \<Rightarrow> bool" where
  "cb_inv n xs cb \<longleftrightarrow>
     cb_size cb = n \<and> length (cb_buffer cb) = n \<and>
     cb_writeIndex cb = Some (length xs mod n) \<and>
     (\<forall>k < length xs. k < n \<longrightarrow>
        cb_buffer cb ! ((length xs - Suc k) mod n) = fround (xs ! (length xs - Suc k)))"

section \<open>DSP primitives: biquad filter and envelope follower\<close>

text \<open>
  Samples and coefficients are real numbers: the model is the exact arithmetic that the
  source's double-precision operations approximate. A JavaScript division by zero yields
  an infinity or \<^verbatim>\<open>NaN\<close>, which no real number stands for; where \<^verbatim>\<open>setLowpass\<close> would
  divide by zero the model returns \<open>None\<close>.
\<close>

record BiquadFilter =
  bq_fs :: real
  bq_x1 :: real
  bq_x2 :: real
  bq_y1 :: real
  bq_y2 :: real
  bq_b0 :: real
  bq_b1 :: real
  bq_b2 :: real
  bq_a1 :: real
  bq_a2 :: real

definition BiquadFilter_new :: "real \<Rightarrow> BiquadFilter" where
  "BiquadFilter_new sampleRate =
     \<lparr>bq_fs = sampleRate, bq_x1 = 0, bq_x2 = 0, bq_y1 = 0, bq_y2 = 0,
      bq_b0 = 1, bq_b1 = 0, bq_b2 = 0, bq_a1 = 0, bq_a2 = 0\<rparr>"

definition BiquadFilter_setLowpass :: "real \<Rightarrow> real \<Rightarrow> BiquadFilter \<Rightarrow> BiquadFilter option" where
  "BiquadFilter_setLowpass frequency Q f =
     (if bq_fs f = 0 \<or> 2 * Q = 0 then None
      else
        let omega = (2 * pi * frequency) / bq_fs f;
            cos_omega = cos omega;
            sin_omega = sin omega;
            alpha = sin_omega / (2 * Q);
            a0 = 1 + alpha
        in if a0 = 0 then None
           else Some (f\<lparr>bq_b0 := (1 - cos_omega) / 2 / a0,
                        bq_b1 := (1 - cos_omega) / a0,
                        bq_b2 := (1 - cos_omega) / 2 / a0,
                        bq_a1 := (- 2 * cos_omega) / a0,
                        bq_a2 := (1 - alpha) / a0\<rparr>))"

definition BiquadFilter_process :: "real \<Rightarrow> BiquadFilter \<Rightarrow> real \<times> BiquadFilter" where
  "BiquadFilter_process input f =
     (let output = bq_b0 f * input + bq_b1 f * bq_x1 f + bq_b2 f * bq_x2 f
                   - bq_a1 f * bq_y1 f - bq_a2 f * bq_y2 f
      in (output, f\<lparr>bq_x2 := bq_x1 f, bq_x1 := input, bq_y2 := bq_y1 f, bq_y1 := output\<rparr>))"

text \<open>
  Feeding the input sequence \<open>x\<close> sample by sample: the filter after \<open>n\<close> calls of
  \<^verbatim>\<open>process\<close>, and the output of call number \<open>n\<close> (counted from 0).
\<close>

primrec bq_state :: "(nat \<Rightarrow> real) \<Rightarrow> BiquadFilter \<Rightarrow> nat \<Rightarrow> BiquadFilter" where
  "bq_state x f 0 = f"
| "bq_state x f (Suc n) = snd (BiquadFilter_process (x n) (bq_state x f n))"

definition bq_output :: "(nat \<Rightarrow> real) \<Rightarrow> BiquadFilter \<Rightarrow> nat \<Rightarrow> real" where
  "bq_output x f n = fst (BiquadFilter_process (x n) (bq_state x f n))"

definition nyquist :: "real \<Rightarrow> real" where
  "nyquist sampleRate = sampleRate / 2"

definition unit_impulse :: "nat \<Rightarrow> real" where
  "unit_impulse n = (if n = 0 then 1 else 0)"

text \<open>The coefficients that \<^verbatim>\<open>setLowpass\<close> computes at a quarter of the sample rate with \<open>Q = 0.707\<close>.\<close>

definition halfband_lowpass :: "real \<Rightarrow> BiquadFilter" where
  "halfband_lowpass fs = (BiquadFilter_new fs)\<lparr>bq_b0 := 707 / 2414, bq_b1 := 707 / 1207,
     bq_b2 := 707 / 2414, bq_a1 := 0, bq_a2 := 207 / 1207\<rparr>"

record EnvelopeFollower =
  ef_attack :: real
  ef_release :: real
  ef_envelope :: real

text \<open>
  \<^verbatim>\<open>Math.exp(-1 / t)\<close>: for \<open>t = 0\<close> the quotient is \<^verbatim>\<open>-Infinity\<close> and the result 0.
  The reals have one zero; where the product \<open>t\<close> is the negative zero of the doubles,
  the source gets \<^verbatim>\<open>Infinity\<close> instead.
\<close>

definition exp_neg_recip :: "real \<Rightarrow> real" where
  "exp_neg_recip t = (if t = 0 then 0 else exp (- 1 / t))"

definition EnvelopeFollower_new :: "real \<Rightarrow> real \<Rightarrow> real \<Rightarrow> EnvelopeFollower" where
  "EnvelopeFollower_new attackTime releaseTime sampleRate =
     \<lparr>ef_attack = exp_neg_recip (attackTime * sampleRate),
      ef_release = exp_neg_recip (releaseTime * sampleRate),
      ef_envelope = 0\<rparr>"

definition EnvelopeFollower_process :: "real \<Rightarrow> EnvelopeFollower \<Rightarrow> real \<times> EnvelopeFollower" where
  "EnvelopeFollower_process input ef =
     (let inputAbs = \<bar>input\<bar>;
          rate = (if inputAbs > ef_envelope ef then ef_attack ef else ef_release ef);
          env = inputAbs + (ef_envelope ef - inputAbs) * rate
      in (env, ef\<lparr>ef_envelope := env\<rparr>))"

primrec ef_state :: "(nat \<Rightarrow> real) \<Rightarrow> EnvelopeFollower \<Rightarrow> nat \<Rightarrow> EnvelopeFollower" where
  "ef_state x ef 0 = ef"
| "ef_state x ef (Suc n) = snd (EnvelopeFollower_process (x n) (ef_state x ef n))"

section \<open>Script sandbox\<close>

text \<open>
  A JavaScript string is its sequence of UTF-16 code units; \<^verbatim>\<open>code.length\<close> is the
  length of the list. \<open>js\<close> turns a literal of this theory into such a string.
\<close>

type_synonym js_string = "nat list"

definition js :: "string \<Rightarrow> js_string" where
  "js s = map of_char s"

text \<open>The white-space class of JavaScript regular expressions, as code units.\<close>

definition is_space :: "nat \<Rightarrow> bool" where
  "is_space c \<longleftrightarrow>
     c \<in> {9, 10, 11, 12, 13, 32, 160, 5760, 8232, 8233, 8239, 8287, 12288, 65279}
     \<or> (8192 \<le> c \<and> c \<le> 8202)"

text \<open>
  The seven regular expressions of \<^verbatim>\<open>validateScript\<close> are sequences of literal code units
  and of \<open>WsStar\<close>, any number of white-space code units. \<open>match_here p s\<close>: the pattern matches a prefix of \<open>s\<close>;
  \<open>regex_test p s\<close>: it matches somewhere in \<open>s\<close>, which is \<^verbatim>\<open>pattern.test(s)\<close>
  for a pattern without flags.
\<close>

datatype atom = Ch nat | WsStar

fun match_here :: "atom list \<Rightarrow> js_string \<Rightarrow> bool" where
  "match_here [] s = True"
| "match_here (Ch c # p) [] = False"
| "match_here (Ch c # p) (x # s) = (x = c \<and> match_here p s)"
| "match_here (WsStar # p) [] = match_here p []"
| "match_here (WsStar # p) (x # s) =
     (match_here p (x # s) \<or> (is_space x \<and> match_here (WsStar # p) s))"

fun regex_test :: "atom list \<Rightarrow> js_string \<Rightarrow> bool" where
  "regex_test p [] = match_here p []"
| "regex_test p (x # s) = (match_here p (x # s) \<or> regex_test p s)"

definition lit :: "string \<Rightarrow> atom list" where
  "lit s = map Ch (js s)"

definition dangerous :: "atom list list" where
  "dangerous =
     [lit ''eval'' @ [WsStar] @ lit ''('',
      lit ''Function'' @ [WsStar] @ lit ''('',
      lit ''constructor'' @ [WsStar] @ lit ''['',
      lit ''__proto__'',
      lit ''document.'',
      lit ''window.'',
      lit ''global.'']"

text \<open>A thrown \<^verbatim>\<open>Error\<close>, with its message.\<close>

datatype js_error = Error string

fun check_patterns :: "atom list list \<Rightarrow> js_string \<Rightarrow> js_error + unit" where
  "check_patterns [] code = Inr ()"
| "check_patterns (pattern # rest) code =
     (if regex_test pattern code then Inl (Error ''Script contains unsafe code patterns'')
      else check_patterns rest code)"

definition validateScript :: "js_string \<Rightarrow> js_error + unit" where
  "validateScript code =
     (case check_patterns dangerous code of
        Inl e \<Rightarrow> Inl e
      | Inr _ \<Rightarrow>
          if length code > 10000 then Inl (Error ''Script exceeds maximum size'')
          else Inr ())"

text \<open>
  \<^verbatim>\<open>executeUserScript\<close> runs on the event loop of the page: a call validates the code,
  creates a worker, arms a timeout and returns a pending promise; afterwards the timeout
  callback and the worker's \<^verbatim>\<open>onmessage\<close> and \<^verbatim>\<open>onerror\<close> handlers run as events, in
  some order. The model is the state of one sandbox object and a step function over these
  events; time itself is not modelled. Each successful call adds one invocation to
  \<open>sb_invocations\<close>: its worker (alive until terminated; a terminated worker delivers no
  further event), its timeout (armed until it fires or is cleared), its object URL and its
  promise. \<open>sb_worker\<close> is the field \<^verbatim>\<open>this.worker\<close>, the worker of the latest call.
  An exception thrown by a callback is not caught by anything in the source; it is
  recorded in \<open>sb_uncaught\<close> and the event loop goes on.
\<close>

datatype 'd settle = Pending | Resolved 'd | Rejected js_error

record 'd invocation =
  inv_source :: js_string
  inv_posted :: 'd
  inv_alive :: bool
  inv_armed :: bool
  inv_url_live :: bool
  inv_promise :: "'d settle"

record 'd ScriptSandbox =
  sb_worker :: "nat option"
  sb_timeout :: nat
  sb_invocations :: "'d invocation list"
  sb_uncaught :: "js_error list"

definition ScriptSandbox_new :: "'d ScriptSandbox" where
  "ScriptSandbox_new =
     \<lparr>sb_worker = None, sb_timeout = 5000, sb_invocations = [], sb_uncaught = []\<rparr>"

text \<open>
  The call itself. A validation error rejects the promise of the \<^verbatim>\<open>async\<close> function
  before anything else happens: the result is \<open>Inl\<close> and the sandbox is unchanged.
  Otherwise the result is the index of the new invocation.
\<close>

definition executeUserScript ::
    "js_string \<Rightarrow> 'd \<Rightarrow> 'd ScriptSandbox \<Rightarrow> (js_error + nat) \<times> 'd ScriptSandbox" where
  "executeUserScript code audioData sb =
     (case validateScript code of
        Inl e \<Rightarrow> (Inl e, sb)
      | Inr _ \<Rightarrow>
          let i = length (sb_invocations sb)
          in (Inr i,
              sb\<lparr>sb_worker := Some i,
                 sb_invocations := sb_invocations sb @
                   [\<lparr>inv_source = code, inv_posted = audioData, inv_alive = True,
                     inv_armed = True, inv_url_live = True, inv_promise = Pending\<rparr>]\<rparr>))"

text \<open>\<^verbatim>\<open>resolve\<close> and \<^verbatim>\<open>reject\<close> settle a promise that is still pending, and only that.\<close>

definition settle :: "'d settle \<Rightarrow> 'd settle \<Rightarrow> 'd settle" where
  "settle outcome p = (case p of Pending \<Rightarrow> outcome | _ \<Rightarrow> p)"

definition terminate :: "nat \<Rightarrow> 'd ScriptSandbox \<Rightarrow> 'd ScriptSandbox" where
  "terminate j sb =
     (if j < length (sb_invocations sb)
      then sb\<lparr>sb_invocations := (sb_invocations sb)[j := (sb_invocations sb ! j)\<lparr>inv_alive := False\<rparr>]\<rparr>
      else sb)"

text \<open>
  The timeout callback of invocation \<open>i\<close>: \<^verbatim>\<open>this.worker.terminate()\<close>, then
  \<^verbatim>\<open>throw new Error('Script execution timeout')\<close>. It runs only while the timeout is armed.
\<close>

definition on_timeout :: "nat \<Rightarrow> 'd ScriptSandbox \<Rightarrow> 'd ScriptSandbox" where
  "on_timeout i sb =
     (if i < length (sb_invocations sb) \<and> inv_armed (sb_invocations sb ! i) then
        let sb1 = sb\<lparr>sb_invocations :=
                      (sb_invocations sb)[i := (sb_invocations sb ! i)\<lparr>inv_armed := False\<rparr>]\<rparr>
        in (case sb_worker sb1 of
              None \<Rightarrow> sb1\<lparr>sb_uncaught := sb_uncaught sb1 @ [Error ''TypeError'']\<rparr>
            | Some j \<Rightarrow>
                let sb2 = terminate j sb1
                in sb2\<lparr>sb_uncaught := sb_uncaught sb2 @ [Error ''Script execution timeout'']\<rparr>)
      else sb)"

text \<open>
  The handlers \<^verbatim>\<open>onmessage\<close> (\<open>outcome = Resolved data\<close>) and \<^verbatim>\<open>onerror\<close>
  (\<open>outcome = Rejected e\<close>) of the worker of invocation \<open>i\<close>: clear the timeout, revoke
  the URL, settle the promise.
\<close>

definition on_reply :: "nat \<Rightarrow> 'd settle \<Rightarrow> 'd ScriptSandbox \<Rightarrow> 'd ScriptSandbox" where
  "on_reply i outcome sb =
     (if i < length (sb_invocations sb) \<and> inv_alive (sb_invocations sb ! i) then
        sb\<lparr>sb_invocations :=
             (sb_invocations sb)[i := (sb_invocations sb ! i)
                \<lparr>inv_armed := False, inv_url_live := False,
                 inv_promise := settle outcome (inv_promise (sb_invocations sb ! i))\<rparr>]\<rparr>
      else sb)"

datatype 'd event =
    Call js_string 'd
  | TimerFires nat
  | WorkerMessage nat 'd
  | WorkerError nat js_error

fun step :: "'d event \<Rightarrow> 'd ScriptSandbox \<Rightarrow> 'd ScriptSandbox" where
  "step (Call code audioData) sb = snd (executeUserScript code audioData sb)"
| "step (TimerFires i) sb = on_timeout i sb"
| "step (WorkerMessage i d) sb = on_reply i (Resolved d) sb"
| "step (WorkerError i e) sb = on_reply i (Rejected e) sb"

definition run :: "'d event list \<Rightarrow> 'd ScriptSandbox \<Rightarrow> 'd ScriptSandbox" where
  "run evs sb = fold step evs sb"

text \<open>Silence for a buffer: as many zeros as the buffer has samples.\<close>

definition silence :: "real list \<Rightarrow> real list" where
  "silence audioData = map (\<lambda>_. 0) audioData"

text \<open>A script that never answers, and one that uses timers, network, storage and reflection.\<close>

definition busy_loop :: js_string where
  "busy_loop = js ''onmessage = function (e) { for (;;) {} }''"

definition uses_timers_network_storage_reflection :: js_string where
  "uses_timers_network_storage_reflection =
     js ''setInterval(function () { fetch(u); indexedDB.open(n); Reflect.get(o, k) }, 1)''"

text \<open>In every reachable state, an armed timeout belongs to a pending promise.\<close>

definition sb_wf :: "'d ScriptSandbox \<Rightarrow> bool" where
  "sb_wf sb \<longleftrightarrow>
     (\<forall>i < length (sb_invocations sb).
        inv_armed (sb_invocations sb ! i) \<longrightarrow>
          inv_promise (sb_invocations sb ! i) = Pending \<and> inv_url_live (sb_invocations sb ! i))"

section \<open>Single-precision rounding\<close>

text \<open>The exponent search finds the binary exponent, clamped at \<open>-126\<close>.\<close>

lemma two_powi_Suc: "(2::real) powi (j + 1) = 2 * 2 powi j"
  by (simp add: power_int_add)

lemma f32_exp_up_bounds:
  "1 \<le> a \<Longrightarrow> e \<le> f32_exp_up a e \<and> 2 powi (f32_exp_up a e - e) \<le> a \<and> a < 2 powi (f32_exp_up a e - e + 1)"
proof (induction a e rule: f32_exp_up.induct)
  case (1 a e)
  show ?case
  proof (cases "2 \<le> a")
    case True
    define r where "r = f32_exp_up (a / 2) (e + 1)"
    define j where "j = r - (e + 1)"
    have "1 \<le> a / 2" using True by simp
    from "1.IH" [OF True this] have ih: "e + 1 \<le> r" "2 powi j \<le> a / 2" "a / 2 < 2 powi (j + 1)"
      by (simp_all add: r_def j_def)
    have eq: "f32_exp_up a e = r"
      unfolding r_def by (subst f32_exp_up.simps) (simp only: True if_True)
    have re: "r - e = j + 1" by (simp add: j_def)
    have "2 powi (j + 1) \<le> a" "a < 2 powi (j + 1 + 1)"
      using ih unfolding two_powi_Suc [of "j + 1"] two_powi_Suc [of j] by simp_all
    then show ?thesis unfolding eq re using ih(1) by simp
  next
    case False
    have "f32_exp_up a e = e" by (subst f32_exp_up.simps) (simp only: False if_False)
    then show ?thesis using False "1.prems" by simp
  qed
qed

lemma f32_exp_down_bounds:
  "0 < a \<Longrightarrow> a < 2 \<Longrightarrow> - 126 \<le> e \<Longrightarrow>
     - 126 \<le> f32_exp_down a e \<and> f32_exp_down a e \<le> e \<and>
     a < 2 powi (f32_exp_down a e - e + 1) \<and>
     (2 powi (f32_exp_down a e - e) \<le> a \<or> f32_exp_down a e = - 126)"
proof (induction a e rule: f32_exp_down.induct)
  case (1 a e)
  show ?case
  proof (cases "a < 1 \<and> - 126 < e")
    case True
    define r where "r = f32_exp_down (a * 2) (e - 1)"
    define j where "j = r - e"
    have pre: "0 < a * 2" "a * 2 < 2" "- 126 \<le> e - 1" using True "1.prems" by simp_all
    have re: "r - (e - 1) = j + 1" by (simp add: j_def)
    from "1.IH" [OF True pre] have ih: "- 126 \<le> r" "r \<le> e - 1"
      "a * 2 < 2 powi (j + 1 + 1)" "2 powi (j + 1) \<le> a * 2 \<or> r = - 126"
      unfolding r_def [symmetric] re by simp_all
    have eq: "f32_exp_down a e = r"
      unfolding r_def using True by (subst f32_exp_down.simps) simp
    have "a < 2 powi (j + 1)" "2 powi j \<le> a \<or> r = - 126"
      using ih(3,4) unfolding two_powi_Suc [of "j + 1"] two_powi_Suc [of j] by auto
    then show ?thesis unfolding eq using ih(1,2) by (simp add: j_def)
  next
    case False
    have eq: "f32_exp_down a e = e" by (subst f32_exp_down.simps) (simp only: False if_False)
    show ?thesis using False "1.prems" unfolding eq by auto
  qed
qed

lemma f32_exponent_bounds:
  assumes "0 < a"
  shows "- 126 \<le> f32_exponent a \<and> a < 2 powi (f32_exponent a + 1) \<and>
         (2 powi f32_exponent a \<le> a \<or> f32_exponent a = - 126)"
proof (cases "2 \<le> a")
  case True
  then have "1 \<le> a" by simp
  from f32_exp_up_bounds [OF this, of 0] True show ?thesis
    by (simp add: f32_exponent_def)
next
  case False
  then have "a < 2" by simp
  from f32_exp_down_bounds [OF assms this, of 0] False show ?thesis
    by (simp add: f32_exponent_def)
qed

text \<open>Evaluating \<^verbatim>\<open>Math.fround\<close> at a given number.\<close>

lemmas fround_eval = fround_def f32_exponent_def f32_overflow_def round_half_even_def
  f32_exp_up.simps f32_exp_down.simps Let_def

lemma fround_examples:
  "fround (1 / 2) = F32 (1 / 2)"
  "fround (1 / 10) = F32 (13421773 / 134217728)"
  "fround 16777217 = F32 16777216"
  "fround (10 ^ 39) = F32_Infinity"
  "fround (1 / 10 ^ 50) = F32 0"
  by (simp_all add: fround_eval)

lemma fround_small_integers:
  "fround 5 = F32 5" "fround 6 = F32 6" "fround 7 = F32 7" "fround 8 = F32 8" "fround 9 = F32 9"
  "fround 10 = F32 10" "fround 20 = F32 20" "fround 30 = F32 30" "fround 40 = F32 40"
  "fround 50 = F32 50"
  by (simp_all add: fround_eval)

section \<open>Circular buffer: index invariant and reads\<close>

lemma CircularBuffer_writes_snoc: "CircularBuffer_writes (xs @ [x]) cb = CircularBuffer_write x (CircularBuffer_writes xs cb)"
  by (simp add: CircularBuffer_writes_def)

lemma mod_neq: "0 < k \<Longrightarrow> k < n \<Longrightarrow> k \<le> m \<Longrightarrow> (m - k) mod n \<noteq> m mod (n::nat)"
proof
  assume k: "0 < k" "k < n" "k \<le> m" and eq: "(m - k) mod n = m mod n"
  have "n dvd m - (m - k)"
    using eq by (metis mod_eq_dvd_iff_nat diff_le_self)
  then have "n dvd k" using k by simp
  then show False using k by (auto dest: dvd_imp_le)
qed

lemma cb_inv_new: "0 < n \<Longrightarrow> cb_inv n [] (CircularBuffer_new n)"
  by (simp add: cb_inv_def CircularBuffer_new_def)

lemma cb_inv_write:
  assumes n: "0 < n" and inv: "cb_inv n xs cb"
  shows "cb_inv n (xs @ [x]) (CircularBuffer_write x cb)"
proof -
  let ?m = "length xs"
  let ?w = "?m mod n"
  from inv have sz: "cb_size cb = n" and len: "length (cb_buffer cb) = n"
    and wi: "cb_writeIndex cb = Some ?w"
    and old: "\<And>k. k < ?m \<Longrightarrow> k < n \<Longrightarrow>
        cb_buffer cb ! ((?m - Suc k) mod n) = fround (xs ! (?m - Suc k))"
    by (auto simp: cb_inv_def)
  have w': "cb_writeIndex (CircularBuffer_write x cb) = Some (Suc ?m mod n)"
    using n by (simp add: CircularBuffer_write_def wi sz js_rem_def nat_mod_distrib nat_add_distrib mod_Suc_eq)
  have buf: "cb_buffer (CircularBuffer_write x cb) = (cb_buffer cb)[?w := fround x]"
    by (simp add: CircularBuffer_write_def wi)
  have size': "cb_size (CircularBuffer_write x cb) = n"
    by (simp add: CircularBuffer_write_def wi sz)
  have cont: "cb_buffer (CircularBuffer_write x cb) ! ((Suc ?m - Suc k) mod n)
      = fround ((xs @ [x]) ! (Suc ?m - Suc k))"
    if k: "k < Suc ?m" "k < n" for k
  proof (cases k)
    case 0
    then show ?thesis using n by (simp add: buf len)
  next
    case (Suc j)
    with k have j: "j < ?m" "j < n" "Suc j < n" by simp_all
    have ne: "(?m - Suc j) mod n \<noteq> ?w"
      using mod_neq [of "Suc j" n ?m] j by simp
    have "cb_buffer (CircularBuffer_write x cb) ! ((?m - Suc j) mod n) = cb_buffer cb ! ((?m - Suc j) mod n)"
      using ne by (simp add: buf)
    also have "\<dots> = fround (xs ! (?m - Suc j))" using old j by simp
    also have "\<dots> = fround ((xs @ [x]) ! (?m - Suc j))"
    proof -
      have "?m - Suc j < ?m" using j by arith
      then show ?thesis by (simp add: nth_append)
    qed
    finally show ?thesis using Suc by simp
  qed
  show ?thesis
    unfolding cb_inv_def using w' size' cont by (simp add: buf len)
qed

lemma cb_inv_writes: "0 < n \<Longrightarrow> cb_inv n xs (CircularBuffer_writes xs (CircularBuffer_new n))"
proof (induction xs rule: rev_induct)
  case Nil
  then show ?case by (simp add: CircularBuffer_writes_def cb_inv_new)
next
  case (snoc x xs)
  then show ?case by (simp add: CircularBuffer_writes_snoc cb_inv_write)
qed

lemma CircularBuffer_read_inv:
  assumes n: "0 < n" and inv: "cb_inv n xs cb" and d: "1 \<le> d" "d \<le> n" "d \<le> length xs"
  shows "CircularBuffer_read (int d) cb = Some (fround (xs ! (length xs - d)))"
proof -
  let ?m = "length xs"
  from inv have sz: "cb_size cb = n" and len: "length (cb_buffer cb) = n"
    and wi: "cb_writeIndex cb = Some (?m mod n)"
    and old: "\<And>k. k < ?m \<Longrightarrow> k < n \<Longrightarrow>
        cb_buffer cb ! ((?m - Suc k) mod n) = fround (xs ! (?m - Suc k))"
    by (auto simp: cb_inv_def)
  have nonneg: "0 \<le> int (?m mod n) - int d + int n"
    using d by simp
  have "(int (?m mod n) - int d + int n) mod int n = (int ?m mod int n - int d) mod int n"
    by (simp add: zmod_int)
  also have "\<dots> = (int ?m - int d) mod int n"
    by (simp add: mod_diff_left_eq)
  also have "\<dots> = int ((?m - d) mod n)"
    using d by (simp add: zmod_int of_nat_diff)
  finally have "js_rem (int (?m mod n) - int d + int n) n = Some (int ((?m - d) mod n))"
    using n nonneg by (simp add: js_rem_def)
  then have "CircularBuffer_read (int d) cb = Some (cb_buffer cb ! ((?m - d) mod n))"
    using n by (simp add: CircularBuffer_read_def wi sz typed_get_def len)
  also have "cb_buffer cb ! ((?m - d) mod n) = fround (xs ! (?m - d))"
    using old [of "d - 1"] d by simp
  finally show ?thesis .
qed

text \<open>
  C10, as stated, fails: the buffer does not return exactly the sample written. After
  \<^verbatim>\<open>write(0.1)\<close>, \<^verbatim>\<open>read(1)\<close> returns the single-precision neighbour
  \<open>13421773 / 134217728\<close> of \<open>0.1\<close>, and after \<^verbatim>\<open>write(16777217)\<close> it returns
  \<open>16777216\<close>.
\<close>

theorem CircularBuffer_read_rounded_counterexample:
  "CircularBuffer_read 1 (CircularBuffer_writes [1 / 10] (CircularBuffer_new 4))
     = Some (F32 (13421773 / 134217728)) \<and>
   CircularBuffer_read 1 (CircularBuffer_writes [1 / 10] (CircularBuffer_new 4)) \<noteq> Some (F32 (1 / 10)) \<and>
   CircularBuffer_read 1 (CircularBuffer_writes [16777217] (CircularBuffer_new 4)) = Some (F32 16777216)"
  by (simp add: CircularBuffer_writes_def CircularBuffer_write_def CircularBuffer_read_def
      CircularBuffer_new_def js_rem_def typed_get_def fround_examples numeral_eq_Suc)

text \<open>
  C10, amended. For a buffer of capacity \<open>n > 0\<close> and any sequence \<open>xs\<close> of writes
  after construction: the capacity is still \<open>n\<close>, the write index lies in \<open>[0, n)\<close>,
  and for every delay \<open>d\<close> with \<open>1 \<le> d \<le> n\<close> and at least \<open>d\<close> writes made,
  \<^verbatim>\<open>read(d)\<close> returns the sample written \<open>d\<close> write-calls ago as the
  \<^verbatim>\<open>Float32Array\<close> holds it, rounded to single precision: exactly that sample whenever
  it is a single-precision value.
\<close>

theorem CircularBuffer_invariant:
  assumes "0 < n" and "cb = CircularBuffer_writes xs (CircularBuffer_new n)"
  shows "cb_size cb = n \<and> length (cb_buffer cb) = n \<and>
         (\<exists>w. cb_writeIndex cb = Some w \<and> w < n) \<and>
         (\<forall>d. 1 \<le> d \<and> d \<le> n \<and> d \<le> length xs \<longrightarrow>
              CircularBuffer_read (int d) cb = Some (fround (xs ! (length xs - d))) \<and>
              (is_float32 (xs ! (length xs - d)) \<longrightarrow>
                 CircularBuffer_read (int d) cb = Some (F32 (xs ! (length xs - d)))))"
proof -
  have inv: "cb_inv n xs cb"
    using assms by (simp add: cb_inv_writes)
  then have "cb_size cb = n" "length (cb_buffer cb) = n"
    "cb_writeIndex cb = Some (length xs mod n)"
    by (simp_all add: cb_inv_def)
  moreover have "length xs mod n < n"
    using assms(1) by simp
  moreover have "CircularBuffer_read (int d) cb = Some (fround (xs ! (length xs - d)))"
    if "1 \<le> d \<and> d \<le> n \<and> d \<le> length xs" for d
    using that CircularBuffer_read_inv [OF assms(1) inv] by simp
  ultimately show ?thesis by (simp add: is_float32_def)
qed

theorem CircularBuffer_invariant_witness:
  "(0::nat) < 3 \<and>
   (\<exists>cb. cb = CircularBuffer_writes [10, 20, 30, 40, 1 / 10] (CircularBuffer_new 3) \<and>
      cb_size cb = 3 \<and> (\<exists>w. cb_writeIndex cb = Some w \<and> w < 3) \<and>
      is_float32 40 \<and> is_float32 30 \<and>
      CircularBuffer_read 1 cb = Some (F32 (13421773 / 134217728)) \<and>
      CircularBuffer_read 2 cb = Some (F32 40) \<and> CircularBuffer_read 3 cb = Some (F32 30))"
proof -
  define xs :: "real list" where "xs = [10, 20, 30, 40, 1 / 10]"
  define cb where "cb = CircularBuffer_writes xs (CircularBuffer_new 3)"
  have h: "(0::nat) < 3" by simp
  have f: "is_float32 40" "is_float32 30"
    by (simp_all add: is_float32_def fround_small_integers)
  note t = CircularBuffer_invariant [OF h cb_def]
  from t have r: "1 \<le> d \<and> d \<le> 3 \<and> d \<le> length xs \<Longrightarrow>
      CircularBuffer_read (int d) cb = Some (fround (xs ! (length xs - d))) \<and>
      (is_float32 (xs ! (length xs - d)) \<longrightarrow>
         CircularBuffer_read (int d) cb = Some (F32 (xs ! (length xs - d))))" for d
    by blast
  have "CircularBuffer_read 1 cb = Some (F32 (13421773 / 134217728))"
    using r [of 1] by (simp add: xs_def fround_examples)
  moreover have "CircularBuffer_read 2 cb = Some (F32 40)"
    using r [of 2] by (simp add: xs_def fround_small_integers)
  moreover have "CircularBuffer_read 3 cb = Some (F32 30)"
    using r [of 3] by (simp add: xs_def fround_small_integers)
  moreover have "cb_size cb = 3" "\<exists>w. cb_writeIndex cb = Some w \<and> w < 3"
    using t by simp_all
  ultimately show ?thesis using f h unfolding cb_def xs_def by simp
qed

section \<open>Delay line\<close>

text \<open>
  C1. \<^verbatim>\<open>process(x, 0)\<close> does not return \<open>x\<close>: \<^verbatim>\<open>write\<close> advances the write index
  before \<^verbatim>\<open>read(0)\<close> looks at it, so the read addresses the slot that the next write
  will overwrite. A delay line of capacity 4 fed 5, 6, 7, 8, 9 with delay 0 returns the
  initial zeros three times and then the samples of three calls earlier.
\<close>

theorem DelayLine_zero_delay_returns_oldest_slot:
  "fst (DelayLine_run [(5, 0), (6, 0), (7, 0), (8, 0), (9, 0)] (DelayLine_new 4))
     = [Some (F32 0), Some (F32 0), Some (F32 0), Some (F32 5), Some (F32 6)]"
  by (simp add: DelayLine_process_def DelayLine_new_def CircularBuffer_new_def
      CircularBuffer_write_def CircularBuffer_read_def js_rem_def typed_get_def
      fround_small_integers numeral_eq_Suc)

text \<open>
  C5, as stated, fails: with 10, 20, 30 already processed, \<^verbatim>\<open>process(40, 1.5)\<close> returns
  the single sample 40, while the interpolation between the buffered samples at offsets
  1 and 2 is 35 (and between those one offset further back, 25).
\<close>

theorem DelayLine_fractional_delay_counterexample:
  "\<exists>dl b. snd (DelayLine_run [(10, 1), (20, 1), (30, 1)] (DelayLine_new 4)) = dl \<and>
     b = CircularBuffer_write 40 (dl_buffer dl) \<and>
     fst (DelayLine_process 40 (3 / 2) dl) = Some (F32 40) \<and>
     spec_interpolated_read (3 / 2) b = Some (F32 35) \<and>
     spec_interpolated_read (5 / 2) b = Some (F32 25) \<and>
     fst (DelayLine_process 40 (3 / 2) dl) \<noteq> spec_interpolated_read (3 / 2) b"
  by (simp add: DelayLine_process_def DelayLine_new_def CircularBuffer_new_def
      CircularBuffer_write_def CircularBuffer_read_def js_rem_def typed_get_def spec_interpolated_read_def
      fround_small_integers numeral_eq_Suc frac_def)

text \<open>
  C5, amended. The fractional part of the delay time is discarded: for every delay line,
  input and delay time \<open>d\<close>, \<^verbatim>\<open>process\<close> with \<open>d\<close> does exactly what it does with the
  integer \<open>\<lfloor>d\<rfloor>\<close>, and its output is the one buffered sample that \<^verbatim>\<open>read(\<lfloor>d\<rfloor>)\<close>
  selects after the write.
\<close>

theorem DelayLine_fractional_delay_truncates:
  "DelayLine_process x d dl = DelayLine_process x (of_int \<lfloor>d\<rfloor>) dl \<and>
   fst (DelayLine_process x d dl) = CircularBuffer_read \<lfloor>d\<rfloor> (CircularBuffer_write x (dl_buffer dl))"
  by (simp add: DelayLine_process_def Let_def)

section \<open>Biquad lowpass: impulse response\<close>

lemma lowpass_coeffs:
  assumes "fs \<noteq> 0"
  shows "BiquadFilter_setLowpass (nyquist fs / 2) (707 / 1000) (BiquadFilter_new fs) =
    Some ((BiquadFilter_new fs)\<lparr>bq_b0 := 707 / 2414, bq_b1 := 707 / 1207, bq_b2 := 707 / 2414,
       bq_a1 := 0, bq_a2 := 207 / 1207\<rparr>)"
proof -
  have om: "2 * pi * (nyquist fs / 2) / fs = pi / 2" using assms by (simp add: field_simps nyquist_def)
  have sel: "bq_fs (BiquadFilter_new fs) = fs" by (simp add: BiquadFilter_new_def)
  show ?thesis
    unfolding BiquadFilter_setLowpass_def sel om using assms by (simp add: BiquadFilter_new_def Let_def)
qed

lemma bq_state_coeffs:
  "bq_b0 (bq_state x f n) = bq_b0 f \<and> bq_b1 (bq_state x f n) = bq_b1 f \<and>
   bq_b2 (bq_state x f n) = bq_b2 f \<and> bq_a1 (bq_state x f n) = bq_a1 f \<and>
   bq_a2 (bq_state x f n) = bq_a2 f"
  by (induction n) (simp_all add: BiquadFilter_process_def Let_def)

lemma bq_state_hist1:
  "bq_x1 (bq_state x f (Suc n)) = x n \<and> bq_y1 (bq_state x f (Suc n)) = bq_output x f n"
  by (simp add: BiquadFilter_process_def bq_output_def Let_def)

lemma bq_state_hist2:
  "bq_x2 (bq_state x f (Suc (Suc n))) = x n \<and> bq_y2 (bq_state x f (Suc (Suc n))) = bq_output x f n"
  by (simp add: BiquadFilter_process_def bq_output_def Let_def)

lemma bq_difference_equation:
  "bq_output x f (Suc (Suc n)) =
     bq_b0 f * x (Suc (Suc n)) + bq_b1 f * x (Suc n) + bq_b2 f * x n
     - bq_a1 f * bq_output x f (Suc n) - bq_a2 f * bq_output x f n"
proof -
  let ?s = "bq_state x f (Suc (Suc n))"
  have "bq_output x f (Suc (Suc n)) =
      bq_b0 ?s * x (Suc (Suc n)) + bq_b1 ?s * bq_x1 ?s + bq_b2 ?s * bq_x2 ?s
      - bq_a1 ?s * bq_y1 ?s - bq_a2 ?s * bq_y2 ?s"
    unfolding bq_output_def [of x f "Suc (Suc n)"] BiquadFilter_process_def by (simp add: Let_def)
  then show ?thesis
    using bq_state_coeffs [of x f "Suc (Suc n)"] bq_state_hist1 [of x f "Suc n"] bq_state_hist2 [of x f n]
    by simp
qed

lemma imp_y0: "bq_output unit_impulse (halfband_lowpass fs) 0 = 707 / 2414"
  by (simp add: bq_output_def BiquadFilter_process_def halfband_lowpass_def BiquadFilter_new_def unit_impulse_def Let_def)

lemma imp_y1: "bq_output unit_impulse (halfband_lowpass fs) (Suc 0) = 707 / 1207"
  by (simp add: bq_output_def BiquadFilter_process_def halfband_lowpass_def BiquadFilter_new_def unit_impulse_def Let_def)

lemma imp_y2: "bq_output unit_impulse (halfband_lowpass fs) (Suc (Suc 0)) = 707 / 2414 * (1000 / 1207)"
  unfolding bq_difference_equation imp_y0 imp_y1
  by (simp add: halfband_lowpass_def unit_impulse_def)

lemma imp_rec: "bq_output unit_impulse (halfband_lowpass fs) (Suc (Suc (Suc n))) =
    - (207 / 1207) * bq_output unit_impulse (halfband_lowpass fs) (Suc n)"
  unfolding bq_difference_equation [of _ _ "Suc n"]
  by (simp add: halfband_lowpass_def unit_impulse_def)

lemma imp_bound_aux:
  "\<bar>bq_output unit_impulse (halfband_lowpass fs) (Suc n)\<bar> \<le> 2 * (1 / 2) ^ Suc n \<and>
   \<bar>bq_output unit_impulse (halfband_lowpass fs) (Suc (Suc n))\<bar> \<le> 2 * (1 / 2) ^ Suc (Suc n)"
proof (induction n)
  case 0
  show ?case by (simp add: imp_y1 imp_y2)
next
  case (Suc n)
  let ?y = "bq_output unit_impulse (halfband_lowpass fs)"
  have "\<bar>?y (Suc (Suc (Suc n)))\<bar> = 207 / 1207 * \<bar>?y (Suc n)\<bar>"
    by (simp add: imp_rec abs_mult)
  also have "\<dots> \<le> 1 / 4 * \<bar>?y (Suc n)\<bar>"
    by (simp add: mult_right_mono)
  also have "\<dots> \<le> 1 / 4 * (2 * (1 / 2) ^ Suc n)"
    using Suc by (simp add: mult_left_mono)
  also have "\<dots> = 2 * (1 / 2) ^ Suc (Suc (Suc n))"
    by simp
  finally show ?case using Suc by simp
qed

lemma imp_bound: "\<bar>bq_output unit_impulse (halfband_lowpass fs) n\<bar> \<le> 2 * (1 / 2) ^ n"
proof (cases n)
  case 0
  then show ?thesis by (simp add: imp_y0)
next
  case (Suc m)
  then show ?thesis using imp_bound_aux [of fs m] by simp
qed

lemma imp_decreasing_aux:
  "\<bar>bq_output unit_impulse (halfband_lowpass fs) (Suc (Suc n))\<bar>
     < \<bar>bq_output unit_impulse (halfband_lowpass fs) (Suc n)\<bar> \<and>
   \<bar>bq_output unit_impulse (halfband_lowpass fs) (Suc (Suc (Suc n)))\<bar>
     < \<bar>bq_output unit_impulse (halfband_lowpass fs) (Suc (Suc n))\<bar>"
proof (induction n)
  case 0
  show ?case by (simp add: imp_rec imp_y1 imp_y2)
next
  case (Suc n)
  let ?y = "bq_output unit_impulse (halfband_lowpass fs)"
  have "\<bar>?y (Suc (Suc (Suc (Suc n))))\<bar> = 207 / 1207 * \<bar>?y (Suc (Suc n))\<bar>"
    by (simp add: imp_rec abs_mult)
  also have "\<dots> < 207 / 1207 * \<bar>?y (Suc n)\<bar>"
    using Suc by simp
  also have "\<dots> = \<bar>?y (Suc (Suc (Suc n)))\<bar>"
    by (simp add: imp_rec abs_mult)
  finally show ?case using Suc by simp
qed

lemma imp_tendsto_0: "(\<lambda>n. bq_output unit_impulse (halfband_lowpass fs) n) \<longlonglongrightarrow> 0"
proof -
  have "(\<lambda>n. 2 * (1 / 2) ^ n :: real) \<longlonglongrightarrow> 2 * 0"
    by (intro tendsto_mult_left LIMSEQ_realpow_zero) simp_all
  then have "(\<lambda>n. 2 * (1 / 2) ^ n :: real) \<longlonglongrightarrow> 0" by simp
  then show ?thesis
    by (rule tendsto_0_le [where K = 1]) (simp add: imp_bound)
qed

lemma imp_peak: "\<bar>bq_output unit_impulse (halfband_lowpass fs) n\<bar> \<le> 707 / 1207"
proof (cases n)
  case 0
  then show ?thesis by (simp add: imp_y0)
next
  case (Suc m)
  have "\<bar>bq_output unit_impulse (halfband_lowpass fs) (Suc m)\<bar> \<le> 707 / 1207"
  proof (induction m)
    case 0
    show ?case by (simp add: imp_y1)
  next
    case (Suc m)
    then show ?case using imp_decreasing_aux [of fs m] by simp
  qed
  then show ?thesis using Suc by simp
qed

text \<open>
  C2. At any sample rate \<open>fs \<noteq> 0\<close>, \<^verbatim>\<open>setLowpass\<close> with cutoff = Nyquist/2 and
  \<open>Q = 0.707\<close> yields a filter whose response \<open>y\<close> to the unit impulse never diverges
  (\<open>|y n| \<le> 707/1207 < 1\<close> and \<open>|y n| \<le> 2 / 2 ^ n\<close>), and whose magnitude decays:
  from the second sample on it decreases strictly, \<open>y (n + 3) = - (207/1207) * y (n + 1)\<close>,
  and \<open>y\<close> tends to 0.
\<close>

theorem biquad_lowpass_impulse_response_stable:
  assumes "fs \<noteq> 0"
  shows "\<exists>lp. BiquadFilter_setLowpass (nyquist fs / 2) (707 / 1000) (BiquadFilter_new fs) = Some lp \<and>
     (\<forall>n. \<bar>bq_output unit_impulse lp n\<bar> \<le> 707 / 1207) \<and>
     (\<forall>n. \<bar>bq_output unit_impulse lp n\<bar> \<le> 2 * (1 / 2) ^ n) \<and>
     (\<forall>n. \<bar>bq_output unit_impulse lp (Suc (Suc n))\<bar> < \<bar>bq_output unit_impulse lp (Suc n)\<bar>) \<and>
     (\<forall>n. bq_output unit_impulse lp (Suc (Suc (Suc n))) =
           - (207 / 1207) * bq_output unit_impulse lp (Suc n)) \<and>
     (\<lambda>n. bq_output unit_impulse lp n) \<longlonglongrightarrow> 0"
proof -
  have "BiquadFilter_setLowpass (nyquist fs / 2) (707 / 1000) (BiquadFilter_new fs) = Some (halfband_lowpass fs)"
    using lowpass_coeffs [OF assms] by (simp add: halfband_lowpass_def)
  moreover have "\<forall>n. \<bar>bq_output unit_impulse (halfband_lowpass fs) (Suc (Suc n))\<bar>
      < \<bar>bq_output unit_impulse (halfband_lowpass fs) (Suc n)\<bar>"
    using imp_decreasing_aux [of fs] by blast
  ultimately show ?thesis
    using imp_peak [of fs] imp_bound [of fs] imp_rec [of fs] imp_tendsto_0 [of fs] by blast
qed

theorem biquad_lowpass_impulse_response_stable_witness:
  "(48000::real) \<noteq> 0 \<and>
   (\<exists>lp. BiquadFilter_setLowpass (nyquist 48000 / 2) (707 / 1000) (BiquadFilter_new 48000) = Some lp \<and>
     (\<forall>n. \<bar>bq_output unit_impulse lp n\<bar> \<le> 707 / 1207) \<and>
     (\<forall>n. \<bar>bq_output unit_impulse lp (Suc (Suc n))\<bar> < \<bar>bq_output unit_impulse lp (Suc n)\<bar>) \<and>
     (\<lambda>n. bq_output unit_impulse lp n) \<longlonglongrightarrow> 0)"
proof -
  have h: "(48000::real) \<noteq> 0" by simp
  from biquad_lowpass_impulse_response_stable [OF h] show ?thesis using h by blast
qed

section \<open>Envelope follower\<close>

lemma ef_state_coeffs:
  "ef_attack (ef_state x ef n) = ef_attack ef \<and> ef_release (ef_state x ef n) = ef_release ef"
  by (induction n) (simp_all add: EnvelopeFollower_process_def Let_def)

text \<open>
  C6. Each call of \<^verbatim>\<open>process\<close> replaces the envelope by the exponential smoothing
  \<open>(1 - rate) * |input| + rate * envelope\<close> of the rectified input and returns it, where
  \<open>rate\<close> is the attack coefficient when \<open>|input|\<close> exceeds the current envelope and
  the release coefficient otherwise; \<^verbatim>\<open>process\<close> leaves both coefficients as they are,
  so that after any number of samples they are the values \<open>exp (-1 / (time * sampleRate))\<close>
  computed by the constructor.
\<close>

theorem EnvelopeFollower_smoothing:
  "(let rate = (if \<bar>input\<bar> > ef_envelope ef then ef_attack ef else ef_release ef);
        (out, ef') = EnvelopeFollower_process input ef
    in ef_envelope ef' = (1 - rate) * \<bar>input\<bar> + rate * ef_envelope ef \<and>
       out = ef_envelope ef' \<and>
       ef_attack ef' = ef_attack ef \<and> ef_release ef' = ef_release ef) \<and>
   ef_attack (ef_state x (EnvelopeFollower_new attackTime releaseTime sampleRate) n)
     = (if attackTime * sampleRate = 0 then 0 else exp (- 1 / (attackTime * sampleRate))) \<and>
   ef_release (ef_state x (EnvelopeFollower_new attackTime releaseTime sampleRate) n)
     = (if releaseTime * sampleRate = 0 then 0 else exp (- 1 / (releaseTime * sampleRate)))"
proof -
  have "ef_attack (ef_state x (EnvelopeFollower_new attackTime releaseTime sampleRate) n)
      = exp_neg_recip (attackTime * sampleRate)"
    "ef_release (ef_state x (EnvelopeFollower_new attackTime releaseTime sampleRate) n)
      = exp_neg_recip (releaseTime * sampleRate)"
    by (simp_all add: ef_state_coeffs EnvelopeFollower_new_def)
  moreover have "let rate = (if \<bar>input\<bar> > ef_envelope ef then ef_attack ef else ef_release ef);
        (out, ef') = EnvelopeFollower_process input ef
    in ef_envelope ef' = (1 - rate) * \<bar>input\<bar> + rate * ef_envelope ef \<and>
       out = ef_envelope ef' \<and>
       ef_attack ef' = ef_attack ef \<and> ef_release ef' = ef_release ef"
    by (simp add: EnvelopeFollower_process_def Let_def algebra_simps)
  ultimately show ?thesis by (simp only: exp_neg_recip_def)
qed

section \<open>Script sandbox: validation and timeout\<close>

lemma sb_wf_new: "sb_wf ScriptSandbox_new"
  by (simp add: sb_wf_def ScriptSandbox_new_def)

lemma sb_wf_step: "sb_wf sb \<Longrightarrow> sb_wf (step e sb)"
proof (cases e)
  case (Call code d)
  assume "sb_wf sb"
  then show ?thesis using Call
    by (auto simp: sb_wf_def executeUserScript_def Let_def nth_append split: sum.splits)
next
  case (TimerFires i)
  assume "sb_wf sb"
  then show ?thesis using TimerFires
    by (auto simp: sb_wf_def on_timeout_def terminate_def Let_def nth_list_update split: option.splits)
next
  case (WorkerMessage i d)
  assume "sb_wf sb"
  then show ?thesis using WorkerMessage
    by (auto simp: sb_wf_def on_reply_def nth_list_update)
next
  case (WorkerError i err)
  assume "sb_wf sb"
  then show ?thesis using WorkerError
    by (auto simp: sb_wf_def on_reply_def nth_list_update)
qed

lemma run_snoc: "run (evs @ [e]) sb = step e (run evs sb)"
  by (simp add: run_def)

lemma run_Cons: "run (e # evs) sb = run evs (step e sb)"
  by (simp add: run_def)

lemma sb_wf_run: "sb_wf sb \<Longrightarrow> sb_wf (run evs sb)"
  by (induction evs rule: rev_induct) (simp_all add: run_snoc sb_wf_step run_def)

lemma step_dead:
  assumes "i < length (sb_invocations sb)" "\<not> inv_alive (sb_invocations sb ! i)"
  shows "i < length (sb_invocations (step e sb)) \<and>
         \<not> inv_alive (sb_invocations (step e sb) ! i) \<and>
         inv_promise (sb_invocations (step e sb) ! i) = inv_promise (sb_invocations sb ! i) \<and>
         inv_url_live (sb_invocations (step e sb) ! i) = inv_url_live (sb_invocations sb ! i)"
proof (cases e)
  case (Call code d)
  then show ?thesis using assms
    by (auto simp: executeUserScript_def Let_def nth_append split: sum.splits)
next
  case (TimerFires j)
  then show ?thesis using assms
    by (auto simp: on_timeout_def terminate_def Let_def nth_list_update split: option.splits)
next
  case (WorkerMessage j d)
  then show ?thesis using assms
    by (auto simp: on_reply_def nth_list_update)
next
  case (WorkerError j err)
  then show ?thesis using assms
    by (auto simp: on_reply_def nth_list_update)
qed

lemma run_dead:
  assumes "i < length (sb_invocations sb)" "\<not> inv_alive (sb_invocations sb ! i)"
  shows "i < length (sb_invocations (run evs sb)) \<and>
         \<not> inv_alive (sb_invocations (run evs sb) ! i) \<and>
         inv_promise (sb_invocations (run evs sb) ! i) = inv_promise (sb_invocations sb ! i) \<and>
         inv_url_live (sb_invocations (run evs sb) ! i) = inv_url_live (sb_invocations sb ! i)"
  using assms
proof (induction evs arbitrary: sb)
  case Nil
  then show ?case by (simp add: run_def)
next
  case (Cons e evs)
  from step_dead [OF Cons.prems, of e] Cons.IH [of "step e sb"]
  show ?case by (simp add: run_Cons)
qed

lemma on_timeout_own_worker:
  assumes "i < length (sb_invocations sb)" "inv_armed (sb_invocations sb ! i)" "sb_worker sb = Some i"
  shows "i < length (sb_invocations (on_timeout i sb)) \<and>
         \<not> inv_alive (sb_invocations (on_timeout i sb) ! i) \<and>
         inv_promise (sb_invocations (on_timeout i sb) ! i) = inv_promise (sb_invocations sb ! i) \<and>
         inv_url_live (sb_invocations (on_timeout i sb) ! i) = inv_url_live (sb_invocations sb ! i)"
  using assms by (simp add: on_timeout_def terminate_def Let_def)

text \<open>
  In any state the sandbox can reach, let the timeout of invocation \<open>i\<close> fire while it
  is armed and \<^verbatim>\<open>this.worker\<close> is still the worker of that invocation. The worker is
  terminated, and whatever events follow, the promise of the invocation stays pending and
  its object URL is never revoked: the exception thrown in the callback reaches neither.
\<close>

lemma timeout_leaves_promise_pending:
  assumes "sb = run evs ScriptSandbox_new"
    and "i < length (sb_invocations sb)"
    and "inv_armed (sb_invocations sb ! i)"
    and "sb_worker sb = Some i"
    and "sb' = run later (step (TimerFires i) sb)"
  shows "\<not> inv_alive (sb_invocations sb' ! i) \<and>
         inv_promise (sb_invocations sb' ! i) = Pending \<and>
         inv_url_live (sb_invocations sb' ! i)"
proof -
  have wf: "sb_wf sb" using assms(1) by (simp add: sb_wf_run sb_wf_new)
  then have pend: "inv_promise (sb_invocations sb ! i) = Pending" "inv_url_live (sb_invocations sb ! i)"
    using assms(2,3) by (simp_all add: sb_wf_def)
  let ?t = "step (TimerFires i) sb"
  have t: "i < length (sb_invocations ?t)" "\<not> inv_alive (sb_invocations ?t ! i)"
    "inv_promise (sb_invocations ?t ! i) = Pending" "inv_url_live (sb_invocations ?t ! i)"
    using on_timeout_own_worker [OF assms(2,3,4)] pend by simp_all
  from run_dead [OF t(1,2), of later] t(3,4) assms(5)
  show ?thesis by simp
qed

lemma busy_loop_valid: "validateScript busy_loop = Inr ()"
  by (simp add: busy_loop_def validateScript_def dangerous_def lit_def js_def)

lemma busy_loop_started:
  "run [Call busy_loop [1, 2]] ScriptSandbox_new =
     \<lparr>sb_worker = Some 0, sb_timeout = 5000,
      sb_invocations =
        [\<lparr>inv_source = busy_loop, inv_posted = [1, 2::real], inv_alive = True,
          inv_armed = True, inv_url_live = True, inv_promise = Pending\<rparr>],
      sb_uncaught = []\<rparr>"
  by (simp add: run_def executeUserScript_def busy_loop_valid ScriptSandbox_new_def)

text \<open>
  C3. The code does not do what the claim says. A script that never answers is started on
  the buffer \<open>[1, 2]\<close> and its timeout fires: the worker is terminated, but the
  exception thrown in the timeout callback is caught by nothing, and whatever events
  follow, the promise of the invocation is still pending, so it is not resolved with
  silence, and its object URL is still live. On the sibling path, a worker error, the
  handler revokes the URL and rejects the promise.
\<close>

theorem timeout_never_settles_promise:
  "sb_uncaught (run [Call busy_loop [1, 2::real], TimerFires 0] ScriptSandbox_new)
     = [Error ''Script execution timeout''] \<and>
   (\<forall>later. \<exists>sb. sb = run ([Call busy_loop [1, 2], TimerFires 0] @ later) ScriptSandbox_new \<and>
      \<not> inv_alive (sb_invocations sb ! 0) \<and>
      inv_promise (sb_invocations sb ! 0) = Pending \<and>
      inv_promise (sb_invocations sb ! 0) \<noteq> Resolved (silence [1, 2]) \<and>
      inv_url_live (sb_invocations sb ! 0)) \<and>
   (\<exists>sb. sb = run [Call busy_loop [1, 2::real], WorkerError 0 (Error ''fault'')] ScriptSandbox_new \<and>
      inv_promise (sb_invocations sb ! 0) = Rejected (Error ''fault'') \<and>
      \<not> inv_armed (sb_invocations sb ! 0) \<and>
      \<not> inv_url_live (sb_invocations sb ! 0))"
proof -
  define sb0 :: "real list ScriptSandbox" where "sb0 = run [Call busy_loop [1, 2]] ScriptSandbox_new"
  have h: "0 < length (sb_invocations sb0)" "inv_armed (sb_invocations sb0 ! 0)" "sb_worker sb0 = Some 0"
    by (simp_all add: sb0_def busy_loop_started)
  have split: "run ([Call busy_loop [1, 2], TimerFires 0] @ later) ScriptSandbox_new
      = run later (step (TimerFires 0) sb0)" for later :: "real list event list"
    by (simp add: sb0_def run_def)
  have "\<not> inv_alive (sb_invocations (run later (step (TimerFires 0) sb0)) ! 0) \<and>
      inv_promise (sb_invocations (run later (step (TimerFires 0) sb0)) ! 0) = Pending \<and>
      inv_url_live (sb_invocations (run later (step (TimerFires 0) sb0)) ! 0)"
    for later :: "real list event list"
    by (rule timeout_leaves_promise_pending [OF sb0_def h refl])
  then have part2: "\<forall>later. \<exists>sb. sb = run ([Call busy_loop [1, 2], TimerFires 0] @ later) ScriptSandbox_new \<and>
      \<not> inv_alive (sb_invocations sb ! 0) \<and>
      inv_promise (sb_invocations sb ! 0) = Pending \<and>
      inv_promise (sb_invocations sb ! 0) \<noteq> Resolved (silence [1, 2]) \<and>
      inv_url_live (sb_invocations sb ! 0)"
    unfolding split by simp
  have part1: "sb_uncaught (run [Call busy_loop [1, 2::real], TimerFires 0] ScriptSandbox_new)
     = [Error ''Script execution timeout'']"
    using busy_loop_started
    by (simp add: run_def on_timeout_def terminate_def Let_def)
  have part3: "\<exists>sb. sb = run [Call busy_loop [1, 2::real], WorkerError 0 (Error ''fault'')] ScriptSandbox_new \<and>
      inv_promise (sb_invocations sb ! 0) = Rejected (Error ''fault'') \<and>
      \<not> inv_armed (sb_invocations sb ! 0) \<and>
      \<not> inv_url_live (sb_invocations sb ! 0)"
    using busy_loop_started
    by (simp add: run_def on_reply_def settle_def)
  from part1 part2 part3 show ?thesis by (intro conjI)
qed

text \<open>
  The callback terminates \<^verbatim>\<open>this.worker\<close>, the worker of the latest call: with two calls
  on one sandbox, the timeout of the first terminates the worker of the second, and the
  first may still answer.
\<close>

lemma timeout_terminates_latest_worker:
  "\<exists>sb. sb = run [Call busy_loop [1, 2], Call busy_loop [3::real], TimerFires 0, WorkerMessage 0 [7, 8]] ScriptSandbox_new \<and>
     inv_promise (sb_invocations sb ! 0) = Resolved [7, 8] \<and>
     \<not> inv_alive (sb_invocations sb ! 1)"
  by (simp add: run_def executeUserScript_def busy_loop_valid ScriptSandbox_new_def
      on_timeout_def on_reply_def terminate_def Let_def settle_def)

lemma check_patterns_Inl:
  "check_patterns ps code = Inl e \<longleftrightarrow>
     e = Error ''Script contains unsafe code patterns'' \<and> (\<exists>p\<in>set ps. regex_test p code)"
  by (induction ps) auto

lemma check_patterns_Inr: "check_patterns ps code = Inr u \<longleftrightarrow> \<not> (\<exists>p\<in>set ps. regex_test p code)"
  by (induction ps) auto

lemma validateScript_Inr:
  "validateScript code = Inr u \<longleftrightarrow>
     \<not> (\<exists>p\<in>set dangerous. regex_test p code) \<and> length code \<le> 10000"
proof (cases "check_patterns dangerous code")
  case (Inl e)
  then have "validateScript code = Inl e"
    by (simp add: validateScript_def)
  moreover have "\<exists>p\<in>set dangerous. regex_test p code"
    using Inl check_patterns_Inl [of dangerous code e] by simp
  ultimately show ?thesis by simp
next
  case (Inr v)
  then have "validateScript code =
      (if length code > 10000 then Inl (Error ''Script exceeds maximum size'') else Inr ())"
    by (simp add: validateScript_def)
  moreover have "\<not> (\<exists>p\<in>set dangerous. regex_test p code)"
    using Inr check_patterns_Inr [of dangerous code v] by simp
  ultimately show ?thesis by simp
qed

lemma executeUserScript_rejected:
  "validateScript code = Inl e \<Longrightarrow> executeUserScript code audioData sb = (Inl e, sb)"
  by (simp add: executeUserScript_def)

lemma match_here_lit: "match_here (map Ch s @ p) (s @ rest) = match_here p rest"
  by (induction s) simp_all

lemma match_here_ws:
  "\<forall>x\<in>set ws. is_space x \<Longrightarrow> match_here p rest \<Longrightarrow> match_here (WsStar # p) (ws @ rest)"
proof (induction ws)
  case Nil
  then show ?case by (cases rest) simp_all
next
  case (Cons x ws)
  then show ?case by simp
qed

lemma match_here_append: "match_here p s \<Longrightarrow> match_here p (s @ post)"
proof (induction p s rule: match_here.induct)
  case (4 p)
  then show ?case by (cases post) simp_all
qed auto

lemma regex_test_here: "match_here p s \<Longrightarrow> regex_test p s"
  by (cases s) simp_all

lemma regex_test_prefix: "regex_test p s \<Longrightarrow> regex_test p (pre @ s)"
  by (induction pre) simp_all

text \<open>
  What the patterns catch, in terms of the text: a keyword anywhere in the script, or a
  keyword followed by any white space and the bracket.
\<close>

lemma regex_test_contains_lit: "regex_test (lit kw) (pre @ js kw @ post)"
proof -
  have "match_here (map Ch (js kw) @ []) (js kw @ post)"
    unfolding match_here_lit by simp
  then show ?thesis
    by (simp add: lit_def regex_test_here regex_test_prefix)
qed

lemma regex_test_contains_call:
  assumes "\<forall>x\<in>set ws. is_space x"
  shows "regex_test (lit kw @ [WsStar] @ lit c) (pre @ js kw @ ws @ js c @ post)"
proof -
  have "match_here (map Ch (js c) @ []) (js c @ post)"
    unfolding match_here_lit by simp
  then have "match_here (WsStar # map Ch (js c)) (ws @ js c @ post)"
    using assms by (simp add: match_here_ws)
  then have "match_here (map Ch (js kw) @ WsStar # map Ch (js c)) (js kw @ ws @ js c @ post)"
    unfolding match_here_lit .
  then show ?thesis
    by (simp add: lit_def regex_test_here regex_test_prefix)
qed

text \<open>
  C4, amended. \<^verbatim>\<open>validateScript\<close> accepts a script exactly when none of its seven
  patterns (\<^verbatim>\<open>eval(\<close>, \<^verbatim>\<open>Function(\<close>, \<^verbatim>\<open>constructor[\<close>, each with optional white space
  before the bracket, \<^verbatim>\<open>__proto__\<close>, \<^verbatim>\<open>document.\<close>, \<^verbatim>\<open>window.\<close>, \<^verbatim>\<open>global.\<close>)
  occurs in it and it has at most 10000 code units. A script in which one of the patterns
  occurs is rejected with the error \<^verbatim>\<open>Script contains unsafe code patterns\<close> and is never
  executed: \<^verbatim>\<open>executeUserScript\<close> fails with that error and leaves the sandbox as it was.
\<close>

theorem validateScript_rejects_listed_patterns:
  "(validateScript code = Inr () \<longleftrightarrow>
      \<not> (\<exists>p\<in>set dangerous. regex_test p code) \<and> length code \<le> 10000) \<and>
   ((\<exists>p\<in>set dangerous. regex_test p code) \<longrightarrow>
      validateScript code = Inl (Error ''Script contains unsafe code patterns'') \<and>
      executeUserScript code audioData sb = (Inl (Error ''Script contains unsafe code patterns''), sb))"
proof -
  have "validateScript code = Inl (Error ''Script contains unsafe code patterns'')"
    if "\<exists>p\<in>set dangerous. regex_test p code"
  proof -
    from that have "check_patterns dangerous code = Inl (Error ''Script contains unsafe code patterns'')"
      by (simp add: check_patterns_Inl)
    then show ?thesis by (simp add: validateScript_def)
  qed
  then show ?thesis
    using validateScript_Inr [of code "()"] executeUserScript_rejected [of code _ audioData sb]
    by blast
qed

theorem validateScript_rejects_listed_patterns_witness:
  "(\<exists>p\<in>set dangerous. regex_test p (js ''x = eval  (s)'')) \<and>
   validateScript (js ''x = eval  (s)'') = Inl (Error ''Script contains unsafe code patterns'') \<and>
   executeUserScript (js ''x = eval  (s)'') [1, 2::real] ScriptSandbox_new
     = (Inl (Error ''Script contains unsafe code patterns''), ScriptSandbox_new)"
proof -
  have "regex_test (lit ''eval'' @ [WsStar] @ lit ''('') (js ''x = '' @ js ''eval'' @ js ''  '' @ js ''('' @ js ''s)'')"
    by (rule regex_test_contains_call) (simp add: js_def is_space_def)
  then have h: "\<exists>p\<in>set dangerous. regex_test p (js ''x = eval  (s)'')"
    by (simp add: dangerous_def js_def)
  from validateScript_rejects_listed_patterns [of "js ''x = eval  (s)''" "[1, 2::real]" ScriptSandbox_new] h
  show ?thesis by blast
qed

text \<open>
  C4, as stated, fails: a script that sets a timer, calls the network, opens a database
  and uses reflection passes \<^verbatim>\<open>validateScript\<close>, and \<^verbatim>\<open>executeUserScript\<close> starts a worker
  on it.
\<close>

theorem validateScript_unlisted_constructs_counterexample:
  "validateScript uses_timers_network_storage_reflection = Inr () \<and>
   executeUserScript uses_timers_network_storage_reflection [1, 2::real] ScriptSandbox_new =
     (Inr 0,
      \<lparr>sb_worker = Some 0, sb_timeout = 5000,
       sb_invocations =
         [\<lparr>inv_source = uses_timers_network_storage_reflection, inv_posted = [1, 2],
           inv_alive = True, inv_armed = True, inv_url_live = True, inv_promise = Pending\<rparr>],
       sb_uncaught = []\<rparr>)"
proof -
  have v: "validateScript uses_timers_network_storage_reflection = Inr ()"
    by (simp add: uses_timers_network_storage_reflection_def validateScript_def dangerous_def
        lit_def js_def)
  then show ?thesis
    by (simp add: executeUserScript_def ScriptSandbox_new_def)
qed

text \<open>
  C9. Every script longer than 10000 code units is rejected by \<^verbatim>\<open>validateScript\<close>,
  whatever it contains, and \<^verbatim>\<open>executeUserScript\<close> fails with the same error without
  creating a worker or changing the sandbox.
\<close>

theorem validateScript_rejects_oversized:
  assumes "length code > 10000"
  shows "\<exists>e. validateScript code = Inl e \<and> executeUserScript code audioData sb = (Inl e, sb)"
proof -
  have "validateScript code \<noteq> Inr ()"
    using assms by (simp add: validateScript_Inr)
  then obtain e where e: "validateScript code = Inl e"
    by (cases "validateScript code") auto
  then have "executeUserScript code audioData sb = (Inl e, sb)"
    by (rule executeUserScript_rejected)
  with e show ?thesis by (intro exI [of _ e] conjI)
qed

theorem validateScript_rejects_oversized_witness:
  "length (replicate 10001 (97::nat)) > 10000 \<and>
   (\<exists>e. validateScript (replicate 10001 97) = Inl e \<and>
        executeUserScript (replicate 10001 97) [1, 2::real] ScriptSandbox_new = (Inl e, ScriptSandbox_new))"
proof -
  have h: "length (replicate 10001 (97::nat)) > 10000"
    unfolding length_replicate by simp
  have "\<exists>e. validateScript (replicate 10001 97) = Inl e \<and>
        executeUserScript (replicate 10001 97) [1, 2::real] ScriptSandbox_new = (Inl e, ScriptSandbox_new)"
    by (rule validateScript_rejects_oversized [OF h])
  with h show ?thesis by (rule conjI)
qed

end
